theory Spec2Isabelle
  imports Main
begin

section \<open>The block extractor of \<open>src/node/src/utils/script.py\<close>\<close>

text \<open>
  The script reads the file \<open>Logger.js\<close>, splits its text into lines, scans the lines
  for a start marker and a later end marker, and prints the lines in between:
  \<^verbatim>\<open>
  path=pathlib.Path('Logger.js')
  lines=path.read_text().splitlines()
  start=None
  end=None
  for i,line in enumerate(lines):
      if 'static async writeLog' in line and start is None:
          start=i
      elif start is not None and line.strip().startswith('static async writeLogs'):
          end=i
          break
  if end is None:
      end=len(lines)
  print('\n'.join(lines[start:end]))
  \<close>
\<close>

subsection \<open>Python strings\<close>

text \<open>
  A Python \<open>str\<close> is a sequence of Unicode code points. A code point is a natural
  number here, so that the line boundaries and the whitespace characters beyond Latin-1
  (for example U+2028) are part of the model. A literal of the source is written as an
  Isabelle string and mapped to its code points by \<open>lit\<close>.
\<close>

type_synonym pychar = nat
type_synonym pystr = "pychar list"

definition lit :: "string \<Rightarrow> pystr" where
  "lit s = map of_char s"

text \<open>
  \<open>str.isspace\<close> on one character: the code points for which CPython's
  \<open>_PyUnicode_IsWhitespace\<close> answers true.
\<close>

definition isspace :: "pychar \<Rightarrow> bool" where
  "isspace c \<longleftrightarrow>
     (9 \<le> c \<and> c \<le> 13) \<or> (28 \<le> c \<and> c \<le> 32) \<or> c = 133 \<or> c = 160 \<or> c = 5760 \<or>
     (8192 \<le> c \<and> c \<le> 8202) \<or> c = 8232 \<or> c = 8233 \<or> c = 8239 \<or> c = 8287 \<or>
     c = 12288"

text \<open>
  The characters at which \<open>str.splitlines\<close> breaks a line (CPython's
  \<open>_PyUnicode_IsLinebreak\<close>): LF, VT, FF, CR, FS, GS, RS, NEL, LS and PS.
\<close>

definition is_linebreak :: "pychar \<Rightarrow> bool" where
  "is_linebreak c \<longleftrightarrow>
     (10 \<le> c \<and> c \<le> 13) \<or> (28 \<le> c \<and> c \<le> 30) \<or> c = 133 \<or> c = 8232 \<or> c = 8233"

text \<open>\<open>s.startswith(p)\<close>.\<close>

definition startswith :: "pystr \<Rightarrow> pystr \<Rightarrow> bool" where
  "startswith s p \<longleftrightarrow> take (length p) s = p"

text \<open>\<open>p in s\<close> for strings: \<open>p\<close> occurs in \<open>s\<close> as a contiguous substring.\<close>

fun contains :: "pystr \<Rightarrow> pystr \<Rightarrow> bool" where
  "contains [] p = (p = [])"
| "contains (c # cs) p = (startswith (c # cs) p \<or> contains cs p)"

text \<open>\<open>s.strip()\<close>: leading and trailing whitespace removed.\<close>

definition strip :: "pystr \<Rightarrow> pystr" where
  "strip s = rev (dropWhile isspace (rev (dropWhile isspace s)))"

text \<open>
  \<open>s.splitlines()\<close>, without the line ends. \<open>cur\<close> holds the characters of the line
  being read, last one first. CR followed by LF is one boundary. A boundary at the very
  end of the text does not open a further (empty) line, and the empty text has no line.
\<close>

fun splitlines_from :: "pystr \<Rightarrow> pystr \<Rightarrow> pystr list" where
  "splitlines_from cur [] = (if cur = [] then [] else [rev cur])"
| "splitlines_from cur [c] = (if is_linebreak c then [rev cur] else [rev (c # cur)])"
| "splitlines_from cur (c # d # cs) =
     (if c = 13 \<and> d = 10 then rev cur # splitlines_from [] cs
      else if is_linebreak c then rev cur # splitlines_from [] (d # cs)
      else splitlines_from (c # cur) (d # cs))"

definition splitlines :: "pystr \<Rightarrow> pystr list" where
  "splitlines s = splitlines_from [] s"

text \<open>\<open>sep.join(xs)\<close>.\<close>

fun join :: "pystr \<Rightarrow> pystr list \<Rightarrow> pystr" where
  "join sep [] = []"
| "join sep [x] = x"
| "join sep (x # y # xs) = x @ sep @ join sep (y # xs)"

text \<open>
  \<open>xs[start:end]\<close> where \<open>start\<close> is \<open>None\<close> or a non-negative integer and \<open>end\<close> is a
  non-negative integer (the script produces no other indices). Python reads a missing
  start as the beginning of the list, and clips both indices to the length.
\<close>

definition py_slice :: "'a list \<Rightarrow> nat option \<Rightarrow> nat \<Rightarrow> 'a list" where
  "py_slice xs start end =
     (let lo = (case start of None \<Rightarrow> 0 | Some s \<Rightarrow> min s (length xs));
          hi = min end (length xs)
      in take (hi - lo) (drop lo xs))"

subsection \<open>The file system\<close>

text \<open>
  What \<open>pathlib.Path(p).read_text()\<close> meets at a path: nothing, a regular file whose
  bytes decode to a text, or something that cannot be read as text.
\<close>

datatype error = FileNotFoundError | PermissionError | IsADirectoryError | UnicodeDecodeError

datatype fnode = TextFile pystr | NoPermission | Directory | Undecodable

type_synonym filesystem = "pystr \<rightharpoonup> fnode"

fun read_text :: "filesystem \<Rightarrow> pystr \<Rightarrow> error + pystr" where
  "read_text fs p =
     (case fs p of
        None \<Rightarrow> Inl FileNotFoundError
      | Some (TextFile t) \<Rightarrow> Inr t
      | Some NoPermission \<Rightarrow> Inl PermissionError
      | Some Directory \<Rightarrow> Inl IsADirectoryError
      | Some Undecodable \<Rightarrow> Inl UnicodeDecodeError)"

subsection \<open>The scan\<close>

definition START :: pystr where
  "START = lit ''static async writeLog''"

definition END :: pystr where
  "END = lit ''static async writeLogs''"

definition LOGGER_JS :: pystr where
  "LOGGER_JS = lit ''Logger.js''"

definition NL :: pystr where
  "NL = [10]"

text \<open>The two tests of the loop body on a line.\<close>

definition is_start :: "pystr \<Rightarrow> bool" where
  "is_start line \<longleftrightarrow> contains line START"

definition is_end :: "pystr \<Rightarrow> bool" where
  "is_end line \<longleftrightarrow> startswith (strip line) END"

text \<open>
  The \<open>for\<close> loop over \<open>enumerate(lines)\<close>: \<open>i\<close> is the index of the head of the
  remaining lines, \<open>start\<close> the variable of that name. The result is the pair of \<open>start\<close>
  and \<open>end\<close> when the loop is left, by \<open>break\<close> or at the end of the list.
\<close>

fun scan :: "nat \<Rightarrow> pystr list \<Rightarrow> nat option \<Rightarrow> nat option \<times> nat option" where
  "scan i [] start = (start, None)"
| "scan i (line # rest) start =
     (if is_start line \<and> start = None then scan (Suc i) rest (Some i)
      else if start \<noteq> None \<and> is_end line then (start, Some i)
      else scan (Suc i) rest start)"

definition start_index :: "pystr list \<Rightarrow> nat option" where
  "start_index lines = fst (scan 0 lines None)"

text \<open>\<open>end\<close> after \<open>if end is None: end=len(lines)\<close>.\<close>

definition end_index :: "pystr list \<Rightarrow> nat" where
  "end_index lines = (case snd (scan 0 lines None) of None \<Rightarrow> length lines | Some e \<Rightarrow> e)"

text \<open>The argument of \<open>print\<close>, from the lines.\<close>

definition printed_text :: "pystr list \<Rightarrow> pystr" where
  "printed_text lines = join NL (py_slice lines (start_index lines) (end_index lines))"

subsection \<open>The program\<close>

text \<open>
  A run either ends in an uncaught exception, or calls \<open>print\<close> once. \<open>print\<close> writes its
  argument and a line feed to standard output; an uncaught exception writes nothing
  there.
\<close>

datatype outcome = Raised error | Printed pystr

fun stdout_of :: "outcome \<Rightarrow> pystr" where
  "stdout_of (Raised e) = []"
| "stdout_of (Printed s) = s @ NL"

definition script :: "filesystem \<Rightarrow> outcome" where
  "script fs =
     (case read_text fs LOGGER_JS of
        Inl e \<Rightarrow> Raised e
      | Inr text \<Rightarrow> Printed (printed_text (splitlines text)))"

subsection \<open>The line sequence in the words of the specification\<close>

text \<open>
  The specification describes the line sequence as the text split at line feeds, one
  string per line. \<open>lf_split\<close> cuts the text at every line feed (Python's
  \<open>text.split('\n')\<close>); \<open>spec_lines\<close> reads a line feed as the end of a line, so that
  a text ending in a line feed has no further, empty line.
\<close>

fun lf_split :: "pystr \<Rightarrow> pystr list" where
  "lf_split [] = [[]]"
| "lf_split (c # cs) =
     (if c = 10 then [] # lf_split cs
      else (case lf_split cs of [] \<Rightarrow> [[c]] | l # ls \<Rightarrow> (c # l) # ls))"

definition spec_lines :: "pystr \<Rightarrow> pystr list" where
  "spec_lines text = (let ps = lf_split text in if last ps = [] then butlast ps else ps)"

text \<open>
  The line boundaries of \<open>str.splitlines\<close> read as line feeds: CR followed by LF is
  one boundary and becomes one line feed, any other line boundary character becomes a line
  feed, and every other character stays.
\<close>

fun boundaries_to_lf :: "pystr \<Rightarrow> pystr" where
  "boundaries_to_lf [] = []"
| "boundaries_to_lf [c] = (if is_linebreak c then [10] else [c])"
| "boundaries_to_lf (c # d # cs) =
     (if c = 13 \<and> d = 10 then 10 # boundaries_to_lf cs
      else if is_linebreak c then 10 # boundaries_to_lf (d # cs)
      else c # boundaries_to_lf (d # cs))"

subsection \<open>An example run\<close>

text \<open>
  The scenario of the specification: the lines \<open>A\<close>, \<open>static async writeLog X() {\<close>,
  \<open>  body\<close>, \<open>  static async writeLogs() {\<close> and \<open>C\<close>.
\<close>

definition example_text :: pystr where
  "example_text =
     lit ''A'' @ NL @ lit ''static async writeLog X() {'' @ NL @ lit ''  body'' @ NL @
     lit ''  static async writeLogs() {'' @ NL @ lit ''C''"

definition example_fs :: filesystem where
  "example_fs = [LOGGER_JS \<mapsto> TextFile example_text]"

section \<open>Properties of the string operations\<close>

lemma START_code:
  "START = [115, 116, 97, 116, 105, 99, 32, 97, 115, 121, 110, 99, 32, 119, 114, 105, 116,
            101, 76, 111, 103]"
  by (simp add: START_def lit_def)

lemma END_code:
  "END = [115, 116, 97, 116, 105, 99, 32, 97, 115, 121, 110, 99, 32, 119, 114, 105, 116,
          101, 76, 111, 103, 115]"
  by (simp add: END_def lit_def)

lemma END_START: "END = START @ [115]"
  by (simp add: START_code END_code)

lemma startswith_iff: "startswith s p \<longleftrightarrow> (\<exists>b. s = p @ b)"
proof
  assume "startswith s p"
  then have "s = p @ drop (length p) s"
    unfolding startswith_def by (metis append_take_drop_id)
  then show "\<exists>b. s = p @ b" ..
next
  assume "\<exists>b. s = p @ b"
  then show "startswith s p" unfolding startswith_def by auto
qed

lemma contains_iff: "contains s p \<longleftrightarrow> (\<exists>a b. s = a @ p @ b)"
proof (induction s)
  case Nil
  show ?case by auto
next
  case (Cons c cs)
  show ?case
  proof
    assume "contains (c # cs) p"
    then consider "startswith (c # cs) p" | "contains cs p" by auto
    then show "\<exists>a b. c # cs = a @ p @ b"
    proof cases
      case 1
      then obtain b where "c # cs = p @ b" using startswith_iff by blast
      then have "c # cs = [] @ p @ b" by simp
      then show ?thesis by blast
    next
      case 2
      then obtain a b where "cs = a @ p @ b" using Cons.IH by blast
      then have "c # cs = (c # a) @ p @ b" by simp
      then show ?thesis by blast
    qed
  next
    assume "\<exists>a b. c # cs = a @ p @ b"
    then obtain a b where ab: "c # cs = a @ p @ b" by blast
    show "contains (c # cs) p"
    proof (cases a)
      case Nil
      with ab have "startswith (c # cs) p" using startswith_iff by auto
      then show ?thesis by simp
    next
      case (Cons x a')
      with ab have "cs = a' @ p @ b" by simp
      then have "contains cs p" using Cons.IH by blast
      then show ?thesis by simp
    qed
  qed
qed

lemma rev_dropWhile_rev: "xs = rev (dropWhile P (rev xs)) @ rev (takeWhile P (rev xs))"
  by (metis rev_append rev_rev_ident takeWhile_dropWhile_id)

lemma strip_decomp: "\<exists>a b. s = a @ strip s @ b"
proof -
  let ?d = "dropWhile isspace s"
  have "s = takeWhile isspace s @ ?d" by simp
  moreover have "?d = strip s @ rev (takeWhile isspace (rev ?d))"
    unfolding strip_def by (rule rev_dropWhile_rev)
  ultimately have "s = takeWhile isspace s @ strip s @ rev (takeWhile isspace (rev ?d))"
    by simp
  then show ?thesis by blast
qed

lemma is_end_imp_is_start: "is_end l \<Longrightarrow> is_start l"
proof -
  assume "is_end l"
  then obtain r where r: "strip l = END @ r"
    unfolding is_end_def using startswith_iff by blast
  obtain a b where "l = a @ strip l @ b" using strip_decomp by blast
  with r have "l = a @ START @ ([115] @ r @ b)" by (simp add: END_START)
  then show "is_start l" unfolding is_start_def using contains_iff by blast
qed

lemma not_isspace_s: "\<not> isspace 115"
  by (simp add: isspace_def)

lemma strip_keeps_END:
  assumes "\<forall>c\<in>set ws. isspace c"
  shows "is_end (ws @ END @ rest)"
proof -
  obtain e where e: "END = 115 # e" by (simp add: END_code)
  obtain f where f: "rev END = 115 # f" by (simp add: END_code)
  have "dropWhile isspace (ws @ END @ rest) = dropWhile isspace (END @ rest)"
    using assms by (simp add: dropWhile_append)
  then have l1: "dropWhile isspace (ws @ END @ rest) = END @ rest"
    using not_isspace_s by (simp add: e)
  have "\<exists>x. dropWhile isspace (rev rest @ rev END) = x @ rev END"
  proof (cases "\<forall>c\<in>set (rev rest). isspace c")
    case True
    then have "dropWhile isspace (rev rest @ rev END) = dropWhile isspace (rev END)"
      by (simp add: dropWhile_append)
    then have "dropWhile isspace (rev rest @ rev END) = [] @ rev END"
      using not_isspace_s by (simp add: f)
    then show ?thesis by blast
  next
    case False
    then have "dropWhile isspace (rev rest @ rev END) = dropWhile isspace (rev rest) @ rev END"
      by (auto simp add: dropWhile_append)
    then show ?thesis by blast
  qed
  then obtain x where "dropWhile isspace (rev (END @ rest)) = x @ rev END" by auto
  then have "strip (ws @ END @ rest) = END @ rev x"
    unfolding strip_def using l1 by simp
  then show ?thesis unfolding is_end_def using startswith_iff by blast
qed

section \<open>Properties of the scan\<close>

lemma scan_started_fst: "fst (scan n ls (Some s)) = Some s"
  by (induction ls arbitrary: n) auto

lemma scan_started_none:
  "\<forall>l\<in>set ls. \<not> is_end l \<Longrightarrow> scan n ls (Some s) = (Some s, None)"
  by (induction ls arbitrary: n) auto

lemma scan_started_hit:
  "\<forall>l\<in>set mid. \<not> is_end l \<Longrightarrow> is_end e \<Longrightarrow>
   scan n (mid @ e # post) (Some s) = (Some s, Some (n + length mid))"
  by (induction mid arbitrary: n) auto

lemma scan_unstarted_none:
  "\<forall>l\<in>set ls. \<not> is_start l \<Longrightarrow> scan n ls None = (None, None)"
  by (induction ls arbitrary: n) auto

lemma scan_unstarted_hit:
  "\<forall>l\<in>set pre. \<not> is_start l \<Longrightarrow> is_start s \<Longrightarrow>
   scan n (pre @ s # rest) None = scan (Suc (n + length pre)) rest (Some (n + length pre))"
  by (induction pre arbitrary: n) auto

lemma scan_started_snd_bounds:
  "snd (scan n ls (Some s)) = Some e \<Longrightarrow> n \<le> e \<and> e < n + length ls"
proof (induction ls arbitrary: n)
  case Nil
  then show ?case by simp
next
  case (Cons l ls)
  show ?case
  proof (cases "is_end l")
    case True
    with Cons.prems show ?thesis by simp
  next
    case False
    with Cons.prems have "snd (scan (Suc n) ls (Some s)) = Some e" by simp
    from Cons.IH [OF this] show ?thesis by simp
  qed
qed

text \<open>A list cut at an index.\<close>

lemma first_index_split:
  assumes "i < length ls" and "\<forall>k<i. \<not> P (ls ! k)"
  shows "ls = take i ls @ ls ! i # drop (Suc i) ls \<and> (\<forall>l\<in>set (take i ls). \<not> P l)
         \<and> length (take i ls) = i"
proof -
  have "ls = take i ls @ ls ! i # drop (Suc i) ls"
    using assms(1) by (simp add: id_take_nth_drop)
  moreover have "\<forall>l\<in>set (take i ls). \<not> P l"
  proof
    fix l assume "l \<in> set (take i ls)"
    then obtain k where "k < length (take i ls)" "take i ls ! k = l"
      by (auto simp add: in_set_conv_nth)
    then have "k < i" "ls ! k = l" using assms(1) by auto
    then show "\<not> P l" using assms(2) by blast
  qed
  moreover have "length (take i ls) = i" using assms(1) by simp
  ultimately show ?thesis by blast
qed

lemma scan_from_first_start:
  assumes "i < length ls" and "is_start (ls ! i)" and "\<forall>k<i. \<not> is_start (ls ! k)"
  shows "scan 0 ls None = scan (Suc i) (drop (Suc i) ls) (Some i)"
proof -
  from first_index_split [OF assms(1), of is_start] assms(3)
  have s: "ls = take i ls @ ls ! i # drop (Suc i) ls"
    and n: "\<forall>l\<in>set (take i ls). \<not> is_start l" and len: "length (take i ls) = i"
    by blast+
  have "scan 0 (take i ls @ ls ! i # drop (Suc i) ls) None =
        scan (Suc (0 + length (take i ls))) (drop (Suc i) ls) (Some (0 + length (take i ls)))"
    using n assms(2) by (rule scan_unstarted_hit)
  then show ?thesis using s len by simp
qed

lemma start_index_first:
  assumes "i < length ls" and "is_start (ls ! i)" and "\<forall>k<i. \<not> is_start (ls ! k)"
  shows "start_index ls = Some i"
  unfolding start_index_def scan_from_first_start [OF assms] by (rule scan_started_fst)

lemma exists_first_start:
  assumes "\<exists>l\<in>set ls. is_start l"
  shows "\<exists>i<length ls. is_start (ls ! i) \<and> (\<forall>k<i. \<not> is_start (ls ! k))"
proof -
  from assms obtain m where m: "m < length ls" "is_start (ls ! m)"
    by (auto simp add: in_set_conv_nth)
  define i where "i = (LEAST k. k < length ls \<and> is_start (ls ! k))"
  have "i < length ls \<and> is_start (ls ! i)"
    unfolding i_def by (rule LeastI [where k = m]) (use m in simp)
  moreover have "\<forall>k<i. \<not> is_start (ls ! k)"
  proof (intro allI impI)
    fix k assume "k < i"
    then have "\<not> (k < length ls \<and> is_start (ls ! k))"
      unfolding i_def by (rule not_less_Least)
    moreover have "k < length ls" using \<open>k < i\<close> calculation \<open>i < length ls \<and> is_start (ls ! i)\<close> by simp
    ultimately show "\<not> is_start (ls ! k)" by blast
  qed
  ultimately show ?thesis by blast
qed

lemma end_index_bounds:
  assumes "start_index ls = Some i"
  shows "i < end_index ls \<and> end_index ls \<le> length ls \<and> i < length ls"
proof -
  have "\<exists>l\<in>set ls. is_start l"
  proof (rule ccontr)
    assume "\<not> (\<exists>l\<in>set ls. is_start l)"
    then have "scan 0 ls None = (None, None)" using scan_unstarted_none by blast
    with assms show False by (simp add: start_index_def)
  qed
  then obtain i' where i': "i' < length ls" "is_start (ls ! i')" "\<forall>k<i'. \<not> is_start (ls ! k)"
    using exists_first_start by blast
  then have "start_index ls = Some i'" by (rule start_index_first)
  with assms have [simp]: "i' = i" by simp
  have sc: "scan 0 ls None = scan (Suc i) (drop (Suc i) ls) (Some i)"
    using scan_from_first_start [OF i'] by simp
  show ?thesis
  proof (cases "snd (scan (Suc i) (drop (Suc i) ls) (Some i))")
    case None
    then have "end_index ls = length ls" by (simp add: end_index_def sc)
    then show ?thesis using i'(1) by simp
  next
    case (Some e)
    from scan_started_snd_bounds [OF this] have "Suc i \<le> e" "e < Suc i + length (drop (Suc i) ls)"
      by simp_all
    moreover have "end_index ls = e" using Some by (simp add: end_index_def sc)
    ultimately show ?thesis using i'(1) by simp
  qed
qed

lemma scan_started_end_le:
  "k < length ls \<Longrightarrow> is_end (ls ! k) \<Longrightarrow>
   \<exists>e. snd (scan n ls (Some s)) = Some e \<and> e \<le> n + k"
proof (induction ls arbitrary: n k)
  case Nil
  then show ?case by simp
next
  case (Cons l ls)
  show ?case
  proof (cases "is_end l")
    case True
    then show ?thesis by simp
  next
    case False
    with Cons.prems obtain k' where k': "k = Suc k'" by (cases k) auto
    with Cons.prems have "k' < length ls" "is_end (ls ! k')" by simp_all
    from Cons.IH [OF this, of "Suc n"] obtain e
      where "snd (scan (Suc n) ls (Some s)) = Some e" "e \<le> Suc n + k'" by blast
    then show ?thesis using False k' by simp
  qed
qed

lemma scan_first_start_first_end:
  assumes "i < j" and "j < length ls"
    and "is_start (ls ! i)" and "\<forall>k<i. \<not> is_start (ls ! k)"
    and "is_end (ls ! j)" and "\<forall>k. i < k \<and> k < j \<longrightarrow> \<not> is_end (ls ! k)"
  shows "scan 0 ls None = (Some i, Some j)"
proof -
  let ?r = "drop (Suc i) ls"
  let ?m = "j - Suc i"
  have i: "i < length ls" using assms(1,2) by simp
  have m: "?m < length ?r" using assms(1,2) by simp
  have rm: "?r ! ?m = ls ! j" using assms(1,2) by simp
  have "\<forall>k<?m. \<not> is_end (?r ! k)"
  proof (intro allI impI)
    fix k assume "k < ?m"
    then have "i < Suc i + k \<and> Suc i + k < j" by simp
    then have "\<not> is_end (ls ! (Suc i + k))" using assms(6) by blast
    moreover have "?r ! k = ls ! (Suc i + k)" using \<open>k < ?m\<close> assms(2) by simp
    ultimately show "\<not> is_end (?r ! k)" by simp
  qed
  with first_index_split [OF m, of is_end]
  have s: "?r = take ?m ?r @ ?r ! ?m # drop (Suc ?m) ?r"
    and n: "\<forall>l\<in>set (take ?m ?r). \<not> is_end l" and len: "length (take ?m ?r) = ?m"
    by blast+
  have "scan (Suc i) (take ?m ?r @ ?r ! ?m # drop (Suc ?m) ?r) (Some i) =
        (Some i, Some (Suc i + length (take ?m ?r)))"
    using n assms(5) rm by (intro scan_started_hit) simp_all
  then have "scan (Suc i) ?r (Some i) = (Some i, Some (Suc i + ?m))"
    using s len by simp
  moreover have "Suc i + ?m = j" using assms(1) by simp
  ultimately show ?thesis
    using scan_from_first_start [OF i assms(3,4)] by simp
qed

lemma scan_first_start_no_end:
  assumes "i < length ls"
    and "is_start (ls ! i)" and "\<forall>k<i. \<not> is_start (ls ! k)"
    and "\<forall>k. i < k \<and> k < length ls \<longrightarrow> \<not> is_end (ls ! k)"
  shows "scan 0 ls None = (Some i, None)"
proof -
  have "\<forall>l\<in>set (drop (Suc i) ls). \<not> is_end l"
  proof
    fix l assume "l \<in> set (drop (Suc i) ls)"
    then obtain k where k: "k < length (drop (Suc i) ls)" "drop (Suc i) ls ! k = l"
      by (auto simp add: in_set_conv_nth)
    then have "i < Suc i + k \<and> Suc i + k < length ls" by simp
    then have "\<not> is_end (ls ! (Suc i + k))" using assms(4) by blast
    moreover have "drop (Suc i) ls ! k = ls ! (Suc i + k)" using k(1) by simp
    ultimately show "\<not> is_end l" using k(2) by simp
  qed
  then have "scan (Suc i) (drop (Suc i) ls) (Some i) = (Some i, None)"
    by (rule scan_started_none)
  then show ?thesis using scan_from_first_start [OF assms(1,2,3)] by simp
qed

lemma py_slice_Some:
  assumes "i \<le> j" and "j \<le> length xs"
  shows "py_slice xs (Some i) j = map (\<lambda>k. xs ! k) [i..<j]"
proof (rule nth_equalityI)
  show "length (py_slice xs (Some i) j) = length (map (\<lambda>k. xs ! k) [i..<j])"
    using assms by (simp add: py_slice_def Let_def)
next
  fix k assume "k < length (py_slice xs (Some i) j)"
  then have k: "k < j - i" using assms by (simp add: py_slice_def Let_def)
  then show "py_slice xs (Some i) j ! k = map (\<lambda>k. xs ! k) [i..<j] ! k"
    using assms by (simp add: py_slice_def Let_def min_absorb1)
qed

lemma py_slice_None: "py_slice xs None (length xs) = xs"
  by (simp add: py_slice_def)

lemma script_TextFile:
  "fs LOGGER_JS = Some (TextFile text) \<Longrightarrow> script fs = Printed (printed_text (splitlines text))"
  by (simp add: script_def)

section \<open>The example run, evaluated\<close>

lemma example_lines:
  "splitlines example_text =
     [lit ''A'', lit ''static async writeLog X() {'', lit ''  body'',
      lit ''  static async writeLogs() {'', lit ''C'']"
  by (simp add: example_text_def NL_def splitlines_def lit_def is_linebreak_def)

lemma example_fs_file: "example_fs LOGGER_JS = Some (TextFile example_text)"
  by (simp add: example_fs_def)

lemma start_line_1: "is_start (lit ''static async writeLog X() {'')"
  by (simp add: is_start_def START_code lit_def startswith_def)

lemma start_line_2: "is_start (lit ''  static async writeLogs() {'')"
  by (simp add: is_start_def START_code lit_def startswith_def)

lemma not_start_A: "\<not> is_start (lit ''A'')"
  by (simp add: is_start_def START_code lit_def startswith_def)

lemma not_start_body: "\<not> is_start (lit ''  body'')"
  by (simp add: is_start_def START_code lit_def startswith_def)

lemma not_start_C: "\<not> is_start (lit ''C'')"
  by (simp add: is_start_def START_code lit_def startswith_def)

lemma end_line: "is_end (lit ''  static async writeLogs() {'')"
  by (simp add: is_end_def END_code lit_def startswith_def strip_def isspace_def)

lemma not_end_body: "\<not> is_end (lit ''  body'')"
  by (simp add: is_end_def END_code lit_def startswith_def strip_def isspace_def)

lemma not_end_C: "\<not> is_end (lit ''C'')"
  by (simp add: is_end_def END_code lit_def startswith_def strip_def isspace_def)

section \<open>Further properties of the scan and of the line split\<close>

lemma end_index_le_end_line:
  assumes "i < j" and "j < length ls"
    and "is_start (ls ! i)" and "\<forall>k<i. \<not> is_start (ls ! k)" and "is_end (ls ! j)"
  shows "end_index ls \<le> j"
proof -
  have i: "i < length ls" using assms(1,2) by simp
  let ?r = "drop (Suc i) ls"
  have "j - Suc i < length ?r" and "is_end (?r ! (j - Suc i))"
    using assms(1,2,5) by simp_all
  from scan_started_end_le [OF this, of "Suc i" i] obtain e
    where "snd (scan (Suc i) ?r (Some i)) = Some e" "e \<le> Suc i + (j - Suc i)" by blast
  then have "end_index ls = e" "e \<le> j"
    using scan_from_first_start [OF i assms(3,4)] assms(1) by (simp_all add: end_index_def)
  then show ?thesis by simp
qed

lemma end_index_first_end:
  assumes "i < j" and "j < length ls"
    and "is_start (ls ! i)" and "\<forall>k<i. \<not> is_start (ls ! k)"
    and "is_end (ls ! j)" and "\<forall>k. i < k \<and> k < j \<longrightarrow> \<not> is_end (ls ! k)"
  shows "end_index ls = j"
  using scan_first_start_first_end [OF assms] by (simp add: end_index_def)

lemma end_set_after_start:
  assumes "snd (scan 0 ls None) = Some j"
  shows "\<exists>i<j. start_index ls = Some i"
proof -
  have "\<exists>l\<in>set ls. is_start l"
  proof (rule ccontr)
    assume "\<not> (\<exists>l\<in>set ls. is_start l)"
    then have "scan 0 ls None = (None, None)" using scan_unstarted_none by blast
    with assms show False by simp
  qed
  then obtain i where "i < length ls" "is_start (ls ! i)" "\<forall>k<i. \<not> is_start (ls ! k)"
    using exists_first_start by blast
  then have si: "start_index ls = Some i" by (rule start_index_first)
  from end_index_bounds [OF this] assms have "i < j" by (simp add: end_index_def)
  with si show ?thesis by blast
qed

lemma lf_split_not_Nil: "lf_split s \<noteq> []"
proof (cases s)
  case Nil
  then show ?thesis by simp
next
  case (Cons c cs)
  then show ?thesis by (cases "lf_split cs") simp_all
qed

lemma linebreak_10: "is_linebreak 10"
  by (simp add: is_linebreak_def)

lemma linebreak_13: "is_linebreak 13"
  by (simp add: is_linebreak_def)

lemma splitlines_from_crlf:
  "c = 13 \<and> d = 10 \<Longrightarrow>
   splitlines_from cur (c # d # cs) = rev cur # splitlines_from [] cs"
  by simp

lemma splitlines_from_break:
  "\<not> (c = 13 \<and> d = 10) \<Longrightarrow> is_linebreak c \<Longrightarrow>
   splitlines_from cur (c # d # cs) = rev cur # splitlines_from [] (d # cs)"
  by (simp del: de_Morgan_conj)

lemma splitlines_from_char:
  "\<not> (c = 13 \<and> d = 10) \<Longrightarrow> \<not> is_linebreak c \<Longrightarrow>
   splitlines_from cur (c # d # cs) = splitlines_from (c # cur) (d # cs)"
  by (simp del: de_Morgan_conj)

lemma splitlines_from_no_linebreak:
  assumes "\<forall>c\<in>set cur. \<not> is_linebreak c"
  shows "\<forall>l\<in>set (splitlines_from cur s). \<forall>c\<in>set l. \<not> is_linebreak c"
  using assms
proof (induction cur s rule: splitlines_from.induct)
  case (1 cur)
  then show ?case by simp
next
  case (2 cur c)
  then show ?case by simp
next
  case (3 cur c d cs)
  show ?case
  proof (cases "c = 13 \<and> d = 10")
    case True
    have "\<forall>l\<in>set (splitlines_from [] cs). \<forall>c\<in>set l. \<not> is_linebreak c"
      using 3(1) [OF True] by simp
    then show ?thesis
      unfolding splitlines_from_crlf [OF True] using 3(4) by simp
  next
    case n: False
    show ?thesis
    proof (cases "is_linebreak c")
      case True
      have "\<forall>l\<in>set (splitlines_from [] (d # cs)). \<forall>c\<in>set l. \<not> is_linebreak c"
        using 3(2) [OF n True] by simp
      then show ?thesis
        unfolding splitlines_from_break [OF n True] using 3(4) by simp
    next
      case False
      have "\<forall>c\<in>set (c # cur). \<not> is_linebreak c" using False 3(4) by simp
      from 3(3) [OF n False this] show ?thesis
        unfolding splitlines_from_char [OF n False] .
    qed
  qed
qed

lemma splitlines_from_lf:
  assumes "\<forall>c\<in>set s. is_linebreak c \<longrightarrow> c = 10"
  shows "splitlines_from cur s =
         (let ps = (rev cur @ hd (lf_split s)) # tl (lf_split s)
          in if last ps = [] then butlast ps else ps)"
  using assms
proof (induction cur s rule: splitlines_from.induct)
  case (1 cur)
  show ?case by simp
next
  case (2 cur c)
  show ?case
  proof (cases "is_linebreak c")
    case True
    then have "c = 10" using 2 by simp
    then show ?thesis using True by simp
  next
    case False
    then have "c \<noteq> 10" using linebreak_10 by auto
    then show ?thesis using False by simp
  qed
next
  case (3 cur c d cs)
  obtain p ps where L: "lf_split (d # cs) = p # ps"
    using lf_split_not_Nil [of "d # cs"] by (cases "lf_split (d # cs)") auto
  have rest: "\<forall>c\<in>set (d # cs). is_linebreak c \<longrightarrow> c = 10" using 3(4) by simp
  have "c \<noteq> 13" using 3(4) linebreak_13 by auto
  then have n: "\<not> (c = 13 \<and> d = 10)" by simp
  show ?case
  proof (cases "is_linebreak c")
    case True
    then have c: "c = 10" using 3(4) by simp
    have "splitlines_from [] (d # cs) =
          (let ps = (rev [] @ hd (lf_split (d # cs))) # tl (lf_split (d # cs))
           in if last ps = [] then butlast ps else ps)"
      using 3(2) [OF n True rest] .
    then have "splitlines_from [] (d # cs) =
          (if last (p # ps) = [] then butlast (p # ps) else p # ps)"
      unfolding L by (simp add: Let_def)
    moreover have "lf_split (c # d # cs) = [] # p # ps" using c L by simp
    ultimately show ?thesis
      unfolding splitlines_from_break [OF n True] by (simp add: Let_def)
  next
    case False
    then have c: "c \<noteq> 10" using linebreak_10 by auto
    have "splitlines_from (c # cur) (d # cs) =
          (let ps = (rev (c # cur) @ hd (lf_split (d # cs))) # tl (lf_split (d # cs))
           in if last ps = [] then butlast ps else ps)"
      using 3(3) [OF n False rest] .
    then have "splitlines_from (c # cur) (d # cs) =
          (if last ((rev cur @ c # p) # ps) = [] then butlast ((rev cur @ c # p) # ps)
           else (rev cur @ c # p) # ps)"
      unfolding L by (simp add: Let_def)
    moreover have "lf_split (c # d # cs) = (c # p) # ps" using c L by simp
    ultimately show ?thesis
      unfolding splitlines_from_char [OF n False] by (simp add: Let_def)
  qed
qed

lemma splitlines_eq_spec_lines:
  assumes "\<forall>c\<in>set s. is_linebreak c \<longrightarrow> c = 10"
  shows "splitlines s = spec_lines s"
proof -
  have "(rev [] @ hd (lf_split s)) # tl (lf_split s) = lf_split s"
    using lf_split_not_Nil [of s] by simp
  then show ?thesis
    unfolding splitlines_def spec_lines_def splitlines_from_lf [OF assms] by (simp add: Let_def)
qed

lemma not_linebreak_not_13: "\<not> is_linebreak c \<Longrightarrow> c \<noteq> 13"
  using linebreak_13 by auto

lemma splitlines_from_lf_step:
  "splitlines_from cur (10 # s) = rev cur # splitlines_from [] s"
  by (cases s) (simp_all add: linebreak_10)

lemma splitlines_from_char_step:
  assumes "\<not> is_linebreak c"
  shows "splitlines_from cur (c # s) = splitlines_from (c # cur) s"
proof (cases s)
  case Nil
  then show ?thesis using assms by simp
next
  case (Cons d cs)
  have "\<not> (c = 13 \<and> d = 10)" using not_linebreak_not_13 [OF assms] by simp
  then show ?thesis unfolding Cons using assms by (rule splitlines_from_char)
qed

lemma splitlines_from_boundaries_to_lf:
  "splitlines_from cur s = splitlines_from cur (boundaries_to_lf s)"
proof (induction cur s rule: splitlines_from.induct)
  case (1 cur)
  show ?case by simp
next
  case (2 cur c)
  show ?case by (simp add: linebreak_10)
next
  case (3 cur c d cs)
  show ?case
  proof (cases "c = 13 \<and> d = 10")
    case True
    have "splitlines_from cur (c # d # cs) = rev cur # splitlines_from [] cs"
      using True by (rule splitlines_from_crlf)
    also have "\<dots> = rev cur # splitlines_from [] (boundaries_to_lf cs)"
      using 3(1) [OF True] by simp
    also have "\<dots> = splitlines_from cur (10 # boundaries_to_lf cs)"
      by (simp only: splitlines_from_lf_step)
    also have "10 # boundaries_to_lf cs = boundaries_to_lf (c # d # cs)"
      using True by simp
    finally show ?thesis .
  next
    case n: False
    show ?thesis
    proof (cases "is_linebreak c")
      case True
      have "splitlines_from cur (c # d # cs) = rev cur # splitlines_from [] (d # cs)"
        using n True by (rule splitlines_from_break)
      also have "\<dots> = rev cur # splitlines_from [] (boundaries_to_lf (d # cs))"
        using 3(2) [OF n True] by simp
      also have "\<dots> = splitlines_from cur (10 # boundaries_to_lf (d # cs))"
        by (simp only: splitlines_from_lf_step)
      also have "10 # boundaries_to_lf (d # cs) = boundaries_to_lf (c # d # cs)"
        using n True by (simp del: de_Morgan_conj)
      finally show ?thesis .
    next
      case False
      have "splitlines_from cur (c # d # cs) = splitlines_from (c # cur) (d # cs)"
        using n False by (rule splitlines_from_char)
      also have "\<dots> = splitlines_from (c # cur) (boundaries_to_lf (d # cs))"
        using 3(3) [OF n False] .
      also have "\<dots> = splitlines_from cur (c # boundaries_to_lf (d # cs))"
        using splitlines_from_char_step [OF False] by simp
      also have "c # boundaries_to_lf (d # cs) = boundaries_to_lf (c # d # cs)"
        using n False by (simp del: de_Morgan_conj)
      finally show ?thesis .
    qed
  qed
qed

lemma boundaries_to_lf_only_lf:
  "\<forall>c\<in>set (boundaries_to_lf s). is_linebreak c \<longrightarrow> c = 10"
proof (induction s rule: boundaries_to_lf.induct)
  case 1
  show ?case by simp
next
  case (2 c)
  show ?case by simp
next
  case (3 c d cs)
  show ?case
  proof (cases "c = 13 \<and> d = 10")
    case True
    then show ?thesis using 3(1) by simp
  next
    case n: False
    show ?thesis
    proof (cases "is_linebreak c")
      case True
      have "boundaries_to_lf (c # d # cs) = 10 # boundaries_to_lf (d # cs)"
        using n True by (simp del: de_Morgan_conj)
      then show ?thesis using 3(2) [OF n True] by simp
    next
      case False
      have "boundaries_to_lf (c # d # cs) = c # boundaries_to_lf (d # cs)"
        using n False by (simp del: de_Morgan_conj)
      then show ?thesis using 3(3) [OF n False] False by simp
    qed
  qed
qed

lemma splitlines_eq_spec_lines_of_lf:
  "splitlines s = spec_lines (boundaries_to_lf s)"
proof -
  have "splitlines s = splitlines (boundaries_to_lf s)"
    unfolding splitlines_def by (rule splitlines_from_boundaries_to_lf)
  also have "\<dots> = spec_lines (boundaries_to_lf s)"
    using boundaries_to_lf_only_lf by (rule splitlines_eq_spec_lines)
  finally show ?thesis .
qed

section \<open>The claims\<close>

text \<open>
  C1. When line \<open>i\<close> is the first line that contains \<open>static async writeLog\<close> and line
  \<open>j\<close> is the first line after it whose stripped content starts with
  \<open>static async writeLogs\<close>, the script prints the lines \<open>i\<close> to \<open>j - 1\<close>, unchanged and
  in order, joined with line feeds.
\<close>

theorem script_extracts_block:
  assumes "fs LOGGER_JS = Some (TextFile text)" and "ls = splitlines text"
    and "i < j" and "j < length ls"
    and "is_start (ls ! i)" and "\<forall>k<i. \<not> is_start (ls ! k)"
    and "is_end (ls ! j)" and "\<forall>k. i < k \<and> k < j \<longrightarrow> \<not> is_end (ls ! k)"
  shows "script fs = Printed (join NL (map (\<lambda>k. ls ! k) [i..<j]))"
proof -
  have sc: "scan 0 ls None = (Some i, Some j)"
    using assms(3-8) by (rule scan_first_start_first_end)
  then have "start_index ls = Some i" and "end_index ls = j"
    by (simp_all add: start_index_def end_index_def)
  moreover have "py_slice ls (Some i) j = map (\<lambda>k. ls ! k) [i..<j]"
    using assms(3,4) by (intro py_slice_Some) simp_all
  ultimately have "printed_text ls = join NL (map (\<lambda>k. ls ! k) [i..<j])"
    by (simp add: printed_text_def)
  then show ?thesis using script_TextFile [of fs "text", OF assms(1)] assms(2) by simp
qed

theorem script_extracts_block_witness:
  "is_start (splitlines example_text ! 1) \<and> \<not> is_start (splitlines example_text ! 0) \<and>
   is_end (splitlines example_text ! 3) \<and> \<not> is_end (splitlines example_text ! 2) \<and>
   script example_fs = Printed (lit ''static async writeLog X() {'' @ NL @ lit ''  body'')"
proof -
  let ?ls = "splitlines example_text"
  have h3: "(1::nat) < 3" by simp
  have h4: "3 < length ?ls" by (simp add: example_lines)
  have h5: "is_start (?ls ! 1)" by (simp add: example_lines start_line_1)
  have n0: "\<not> is_start (?ls ! 0)" by (simp add: example_lines not_start_A)
  then have h6: "\<forall>k<1. \<not> is_start (?ls ! k)" by simp
  have h7: "is_end (?ls ! 3)" by (simp add: example_lines end_line)
  have n2: "\<not> is_end (?ls ! 2)" by (simp add: example_lines not_end_body)
  have h8: "\<forall>k. 1 < k \<and> k < 3 \<longrightarrow> \<not> is_end (?ls ! k)"
  proof (intro allI impI)
    fix k :: nat assume "1 < k \<and> k < 3"
    then have "k = 2" by arith
    then show "\<not> is_end (?ls ! k)" using n2 by simp
  qed
  have "script example_fs = Printed (join NL (map (\<lambda>k. ?ls ! k) [1..<3]))"
    using script_extracts_block [of example_fs example_text ?ls 1 3, OF example_fs_file refl h3 h4 h5 h6 h7 h8] .
  moreover have "[1..<3] = [1, 2::nat]" by (simp add: upt_rec)
  ultimately have "script example_fs =
      Printed (lit ''static async writeLog X() {'' @ NL @ lit ''  body'')"
    by (simp add: example_lines)
  then show ?thesis using h5 n0 h7 n2 by blast
qed

text \<open>
  C2 (as the code has it). When no line contains the start substring, the script raises
  no error: \<open>start\<close> stays \<open>None\<close>, End Index is the number of lines, the slice
  \<open>lines[None:end]\<close> is the whole list, and the script prints every line of the file.
\<close>

theorem script_without_start_prints_all:
  assumes "fs LOGGER_JS = Some (TextFile text)"
    and "\<forall>l\<in>set (splitlines text). \<not> is_start l"
  shows "start_index (splitlines text) = None \<and>
         end_index (splitlines text) = length (splitlines text) \<and>
         script fs = Printed (join NL (splitlines text))"
proof -
  have "scan 0 (splitlines text) None = (None, None)"
    using assms(2) by (rule scan_unstarted_none)
  then have "start_index (splitlines text) = None"
    and "end_index (splitlines text) = length (splitlines text)"
    by (simp_all add: start_index_def end_index_def)
  moreover from this have "printed_text (splitlines text) = join NL (splitlines text)"
    by (simp add: printed_text_def py_slice_None)
  ultimately show ?thesis using script_TextFile [of fs "text", OF assms(1)] by simp
qed

theorem script_without_start_prints_all_witness:
  "\<not> is_start (lit ''A'') \<and> \<not> is_start (lit ''C'') \<and>
   splitlines (lit ''A'' @ NL @ lit ''C'') = [lit ''A'', lit ''C''] \<and>
   start_index (splitlines (lit ''A'' @ NL @ lit ''C'')) = None \<and>
   script [LOGGER_JS \<mapsto> TextFile (lit ''A'' @ NL @ lit ''C'')] =
     Printed (lit ''A'' @ NL @ lit ''C'')"
proof -
  let ?t = "lit ''A'' @ NL @ lit ''C''"
  have ls: "splitlines ?t = [lit ''A'', lit ''C'']"
    by (simp add: NL_def splitlines_def lit_def is_linebreak_def)
  have h1: "[LOGGER_JS \<mapsto> TextFile ?t] LOGGER_JS = Some (TextFile ?t)" by simp
  have h2: "\<forall>l\<in>set (splitlines ?t). \<not> is_start l"
    using not_start_A not_start_C by (simp add: ls)
  from script_without_start_prints_all [of "[LOGGER_JS \<mapsto> TextFile ?t]" ?t, OF h1 h2]
  have "start_index (splitlines ?t) = None"
    and "script [LOGGER_JS \<mapsto> TextFile ?t] = Printed (join NL (splitlines ?t))" by simp_all
  then show ?thesis using not_start_A not_start_C ls by simp
qed

text \<open>
  C2 as stated fails: on a file with the two lines \<open>A\<close> and \<open>C\<close>, neither of which
  contains the start substring, the script raises nothing and prints both lines.
\<close>

theorem script_without_start_counterexample:
  "\<not> is_start (lit ''A'') \<and> \<not> is_start (lit ''C'') \<and>
   splitlines (lit ''A'' @ NL @ lit ''C'') = [lit ''A'', lit ''C''] \<and>
   script [LOGGER_JS \<mapsto> TextFile (lit ''A'' @ NL @ lit ''C'')] \<noteq> Raised FileNotFoundError \<and>
   script [LOGGER_JS \<mapsto> TextFile (lit ''A'' @ NL @ lit ''C'')] \<noteq> Raised PermissionError \<and>
   script [LOGGER_JS \<mapsto> TextFile (lit ''A'' @ NL @ lit ''C'')] \<noteq> Raised IsADirectoryError \<and>
   script [LOGGER_JS \<mapsto> TextFile (lit ''A'' @ NL @ lit ''C'')] \<noteq> Raised UnicodeDecodeError \<and>
   stdout_of (script [LOGGER_JS \<mapsto> TextFile (lit ''A'' @ NL @ lit ''C'')]) =
     lit ''A'' @ NL @ lit ''C'' @ NL"
proof -
  let ?t = "lit ''A'' @ NL @ lit ''C''"
  have ls: "splitlines ?t = [lit ''A'', lit ''C'']"
    by (simp add: NL_def splitlines_def lit_def is_linebreak_def)
  have "scan 0 [lit ''A'', lit ''C''] None = (None, None)"
    by (simp add: not_start_A not_start_C)
  then have "printed_text [lit ''A'', lit ''C''] = ?t"
    by (simp add: printed_text_def start_index_def end_index_def py_slice_def)
  then have "script [LOGGER_JS \<mapsto> TextFile ?t] = Printed ?t"
    by (simp add: script_def ls)
  then show ?thesis using not_start_A not_start_C ls by simp
qed

text \<open>
  C3. When line \<open>i\<close> is the first line that contains the start substring and no later line
  has a stripped content starting with \<open>static async writeLogs\<close>, End Index is the number
  of lines and the script prints every line from line \<open>i\<close> to the last one.
\<close>

theorem script_no_end_prints_to_last_line:
  assumes "fs LOGGER_JS = Some (TextFile text)" and "ls = splitlines text"
    and "i < length ls"
    and "is_start (ls ! i)" and "\<forall>k<i. \<not> is_start (ls ! k)"
    and "\<forall>k. i < k \<and> k < length ls \<longrightarrow> \<not> is_end (ls ! k)"
  shows "end_index ls = length ls \<and> script fs = Printed (join NL (drop i ls))"
proof -
  have sc: "scan 0 ls None = (Some i, None)"
    using assms(3-6) by (rule scan_first_start_no_end)
  then have si: "start_index ls = Some i" and ei: "end_index ls = length ls"
    by (simp_all add: start_index_def end_index_def)
  have "py_slice ls (Some i) (length ls) = drop i ls"
    using assms(3) by (simp add: py_slice_def Let_def)
  with si ei have "printed_text ls = join NL (drop i ls)"
    by (simp add: printed_text_def)
  then show ?thesis using script_TextFile [of fs "text", OF assms(1)] assms(2) ei by simp
qed

theorem script_no_end_prints_to_last_line_witness:
  "is_start (lit ''static async writeLog X() {'') \<and> \<not> is_start (lit ''A'') \<and>
   \<not> is_end (lit ''  body'') \<and> \<not> is_end (lit ''C'') \<and>
   end_index (splitlines (lit ''A'' @ NL @ lit ''static async writeLog X() {'' @ NL @
     lit ''  body'' @ NL @ lit ''C'')) = 4 \<and>
   script [LOGGER_JS \<mapsto> TextFile (lit ''A'' @ NL @ lit ''static async writeLog X() {'' @ NL @
     lit ''  body'' @ NL @ lit ''C'')] =
   Printed (lit ''static async writeLog X() {'' @ NL @ lit ''  body'' @ NL @ lit ''C'')"
proof -
  let ?t = "lit ''A'' @ NL @ lit ''static async writeLog X() {'' @ NL @ lit ''  body'' @ NL @
     lit ''C''"
  let ?ls = "splitlines ?t"
  have ls: "?ls = [lit ''A'', lit ''static async writeLog X() {'', lit ''  body'', lit ''C'']"
    by (simp add: NL_def splitlines_def lit_def is_linebreak_def)
  have h1: "[LOGGER_JS \<mapsto> TextFile ?t] LOGGER_JS = Some (TextFile ?t)" by simp
  have h3: "1 < length ?ls" by (simp add: ls)
  have h4: "is_start (?ls ! 1)" by (simp add: ls start_line_1)
  have h5: "\<forall>k<1. \<not> is_start (?ls ! k)" by (simp add: ls not_start_A)
  have h6: "\<forall>k. 1 < k \<and> k < length ?ls \<longrightarrow> \<not> is_end (?ls ! k)"
  proof (intro allI impI)
    fix k :: nat assume "1 < k \<and> k < length ?ls"
    then have "k = 2 \<or> k = 3" by (simp add: ls) arith
    then show "\<not> is_end (?ls ! k)" using not_end_body not_end_C by (auto simp add: ls)
  qed
  have "end_index ?ls = length ?ls \<and>
        script [LOGGER_JS \<mapsto> TextFile ?t] = Printed (join NL (drop 1 ?ls))"
    using script_no_end_prints_to_last_line
      [of "[LOGGER_JS \<mapsto> TextFile ?t]" ?t ?ls 1, OF h1 refl h3 h4 h5 h6] .
  then have "end_index ?ls = 4 \<and> script [LOGGER_JS \<mapsto> TextFile ?t] =
      Printed (lit ''static async writeLog X() {'' @ NL @ lit ''  body'' @ NL @ lit ''C'')"
    by (simp add: ls)
  then show ?thesis using start_line_1 not_start_A not_end_body not_end_C by blast
qed

text \<open>
  C4. Start Index is the index of the first line that contains the start substring,
  however many later lines contain it too: once \<open>start\<close> is set, the scan of the
  remaining lines leaves it as it is.
\<close>

theorem start_index_is_first_match:
  assumes "i < length ls" and "is_start (ls ! i)" and "\<forall>k<i. \<not> is_start (ls ! k)"
  shows "start_index ls = Some i \<and> fst (scan n rest (Some i)) = Some i"
  using start_index_first [OF assms] scan_started_fst by simp

theorem start_index_is_first_match_witness:
  "\<not> is_start (lit ''A'') \<and> is_start (lit ''static async writeLog X() {'') \<and>
   is_start (lit ''  static async writeLogs() {'') \<and>
   start_index [lit ''A'', lit ''static async writeLog X() {'', lit ''  body'',
     lit ''static async writeLog X() {'', lit ''  static async writeLogs() {''] = Some 1 \<and>
   fst (scan 2 [lit ''  body'', lit ''static async writeLog X() {'',
     lit ''  static async writeLogs() {''] (Some 1)) = Some 1"
proof -
  let ?ls = "[lit ''A'', lit ''static async writeLog X() {'', lit ''  body'',
     lit ''static async writeLog X() {'', lit ''  static async writeLogs() {'']"
  have h1: "1 < length ?ls" by simp
  have h2: "is_start (?ls ! 1)" by (simp add: start_line_1)
  have h3: "\<forall>k<1. \<not> is_start (?ls ! k)" by (simp add: not_start_A)
  show ?thesis
    using start_index_is_first_match [of 1 ?ls 2 "[lit ''  body'',
      lit ''static async writeLog X() {'', lit ''  static async writeLogs() {'']", OF h1 h2 h3]
      not_start_A start_line_1 start_line_2
    by blast
qed

text \<open>
  C5 (as the code has it). The line sequence is the text cut by \<open>str.splitlines\<close>: it is
  the text in which every line boundary (CR LF as one, else a single LF, CR, VT, FF, FS,
  GS, RS, NEL, LS or PS) is read as a line feed, split at line feeds, in order, one
  string per line. No line of it contains a line boundary character. When line feed is the
  only line boundary character in the text, it is the text itself split at line feeds.
\<close>

theorem line_sequence_is_lf_split_of_boundaries:
  "splitlines text = spec_lines (boundaries_to_lf text) \<and>
   (\<forall>l\<in>set (splitlines text). \<forall>c\<in>set l. \<not> is_linebreak c) \<and>
   ((\<forall>c\<in>set text. is_linebreak c \<longrightarrow> c = 10) \<longrightarrow> splitlines text = spec_lines text)"
proof (intro conjI impI)
  show "splitlines text = spec_lines (boundaries_to_lf text)"
    by (rule splitlines_eq_spec_lines_of_lf)
next
  show "\<forall>l\<in>set (splitlines text). \<forall>c\<in>set l. \<not> is_linebreak c"
    unfolding splitlines_def by (rule splitlines_from_no_linebreak) simp
next
  assume "\<forall>c\<in>set text. is_linebreak c \<longrightarrow> c = 10"
  then show "splitlines text = spec_lines text" by (rule splitlines_eq_spec_lines)
qed

theorem line_sequence_is_lf_split_of_boundaries_witness:
  "splitlines (lit ''A'' @ NL @ lit ''C'' @ NL) = [lit ''A'', lit ''C''] \<and>
   spec_lines (lit ''A'' @ NL @ lit ''C'' @ NL) = [lit ''A'', lit ''C''] \<and>
   boundaries_to_lf (lit ''A'' @ [12] @ lit ''C'' @ [13, 10] @ lit ''D'' @ [8232]) =
     lit ''A'' @ NL @ lit ''C'' @ NL @ lit ''D'' @ NL \<and>
   splitlines (lit ''A'' @ [12] @ lit ''C'' @ [13, 10] @ lit ''D'' @ [8232]) =
     [lit ''A'', lit ''C'', lit ''D'']"
proof -
  let ?t = "lit ''A'' @ NL @ lit ''C'' @ NL"
  let ?u = "lit ''A'' @ [12] @ lit ''C'' @ [13, 10] @ lit ''D'' @ [8232]"
  have h: "\<forall>c\<in>set ?t. is_linebreak c \<longrightarrow> c = 10"
    by (simp add: lit_def NL_def is_linebreak_def)
  have st: "spec_lines ?t = [lit ''A'', lit ''C'']"
    by (simp add: lit_def NL_def spec_lines_def)
  have bu: "boundaries_to_lf ?u = lit ''A'' @ NL @ lit ''C'' @ NL @ lit ''D'' @ NL"
    by (simp add: lit_def NL_def is_linebreak_def)
  have su: "spec_lines (lit ''A'' @ NL @ lit ''C'' @ NL @ lit ''D'' @ NL) =
      [lit ''A'', lit ''C'', lit ''D'']"
    by (simp add: lit_def NL_def spec_lines_def)
  have "splitlines ?t = spec_lines ?t"
    using line_sequence_is_lf_split_of_boundaries [of ?t] h by blast
  moreover have "splitlines ?u = spec_lines (boundaries_to_lf ?u)"
    using line_sequence_is_lf_split_of_boundaries [of ?u] by blast
  ultimately show ?thesis using st bu su by simp
qed

text \<open>
  C5 as stated fails: a form feed (U+000C) is no line feed, and \<open>str.splitlines\<close> breaks
  the line at it. The text \<open>A\<close>, form feed, \<open>C\<close> is one line when split at line feeds,
  and two lines for the script.
\<close>

theorem line_sequence_counterexample:
  "splitlines (lit ''A'' @ [12] @ lit ''C'') = [lit ''A'', lit ''C''] \<and>
   lf_split (lit ''A'' @ [12] @ lit ''C'') = [lit ''A'' @ [12] @ lit ''C''] \<and>
   spec_lines (lit ''A'' @ [12] @ lit ''C'') = [lit ''A'' @ [12] @ lit ''C''] \<and>
   splitlines (lit ''A'' @ [12] @ lit ''C'') \<noteq> spec_lines (lit ''A'' @ [12] @ lit ''C'')"
  by (simp add: lit_def splitlines_def spec_lines_def is_linebreak_def)

text \<open>
  C6. When some line contains the start substring, the scan ends with
  Start Index \<open>\<le>\<close> End Index \<open>\<le>\<close> number of lines.
\<close>

theorem index_invariant:
  assumes "\<exists>l\<in>set ls. is_start l"
  shows "\<exists>i. start_index ls = Some i \<and> i \<le> end_index ls \<and> end_index ls \<le> length ls"
proof -
  obtain i where "i < length ls" "is_start (ls ! i)" "\<forall>k<i. \<not> is_start (ls ! k)"
    using exists_first_start [OF assms] by blast
  then have si: "start_index ls = Some i" by (rule start_index_first)
  from end_index_bounds [OF this] have "i \<le> end_index ls \<and> end_index ls \<le> length ls"
    by simp
  with si show ?thesis by blast
qed

theorem index_invariant_witness:
  "is_start (lit ''static async writeLog X() {'') \<and>
   (\<exists>i. start_index (splitlines example_text) = Some i \<and>
        i \<le> end_index (splitlines example_text) \<and>
        end_index (splitlines example_text) \<le> length (splitlines example_text))"
proof -
  have "\<exists>l\<in>set (splitlines example_text). is_start l"
    using start_line_1 by (simp add: example_lines)
  from index_invariant [OF this] show ?thesis using start_line_1 by blast
qed

text \<open>
  C7. After the start line, a line made of whitespace followed by a text that begins with
  \<open>static async writeLogs\<close> passes the end test, since the test is made on the stripped
  line: the scan stops at that line or before it, and at that line when no line between
  the start line and it passes the end test.
\<close>

theorem indented_end_line_is_end_boundary:
  assumes "i < j" and "j < length ls"
    and "is_start (ls ! i)" and "\<forall>k<i. \<not> is_start (ls ! k)"
    and "ls ! j = ws @ END @ rest" and "\<forall>c\<in>set ws. isspace c"
  shows "is_end (ls ! j) \<and> end_index ls \<le> j \<and>
         ((\<forall>k. i < k \<and> k < j \<longrightarrow> \<not> is_end (ls ! k)) \<longrightarrow> end_index ls = j)"
proof -
  have e: "is_end (ls ! j)" using strip_keeps_END [OF assms(6)] assms(5) by simp
  moreover have "end_index ls \<le> j"
    using assms(1-4) e by (rule end_index_le_end_line)
  moreover have "(\<forall>k. i < k \<and> k < j \<longrightarrow> \<not> is_end (ls ! k)) \<longrightarrow> end_index ls = j"
    using end_index_first_end [OF assms(1-4) e] by blast
  ultimately show ?thesis by blast
qed

theorem indented_end_line_is_end_boundary_witness:
  "isspace 32 \<and> isspace 9 \<and>
   is_start (lit ''static async writeLog X() {'') \<and> \<not> is_start (lit ''A'') \<and>
   \<not> is_end (lit ''  body'') \<and>
   is_end ([32, 9] @ END @ lit ''() {'') \<and>
   end_index [lit ''A'', lit ''static async writeLog X() {'', lit ''  body'',
     [32, 9] @ END @ lit ''() {'', lit ''C''] = 3"
proof -
  let ?ls = "[lit ''A'', lit ''static async writeLog X() {'', lit ''  body'',
     [32, 9] @ END @ lit ''() {'', lit ''C'']"
  have sp: "isspace 32 \<and> isspace 9" by (simp add: isspace_def)
  have h1: "(1::nat) < 3" by simp
  have h2: "3 < length ?ls" by simp
  have h3: "is_start (?ls ! 1)" by (simp add: start_line_1)
  have h4: "\<forall>k<1. \<not> is_start (?ls ! k)" by (simp add: not_start_A)
  have h5: "?ls ! 3 = [32, 9] @ END @ lit ''() {''" by simp
  have h6: "\<forall>c\<in>set [32, 9]. isspace c" using sp by simp
  have h7: "\<forall>k. 1 < k \<and> k < 3 \<longrightarrow> \<not> is_end (?ls ! k)"
  proof (intro allI impI)
    fix k :: nat assume "1 < k \<and> k < 3"
    then have "k = 2" by arith
    then show "\<not> is_end (?ls ! k)" using not_end_body by simp
  qed
  from indented_end_line_is_end_boundary [of 1 3 ?ls "[32, 9]" "lit ''() {''",
      OF h1 h2 h3 h4 h5 h6] h7
  have "is_end (?ls ! 3) \<and> end_index ?ls = 3" by blast
  then show ?thesis using sp start_line_1 not_start_A not_end_body by simp
qed

text \<open>
  C8. When \<open>Logger.js\<close> does not exist, the script ends in \<open>FileNotFoundError\<close>; when it
  is not a readable text file, the script ends in the error of \<open>read_text\<close>. In both cases
  nothing is written to standard output.
\<close>

theorem unreadable_file_raises:
  "(fs LOGGER_JS = None \<longrightarrow> script fs = Raised FileNotFoundError) \<and>
   (read_text fs LOGGER_JS = Inl e \<longrightarrow> script fs = Raised e \<and> stdout_of (script fs) = []) \<and>
   ((\<forall>t. fs LOGGER_JS \<noteq> Some (TextFile t)) \<longrightarrow> (\<exists>e. read_text fs LOGGER_JS = Inl e))"
proof (intro conjI impI)
  assume "fs LOGGER_JS = None"
  then show "script fs = Raised FileNotFoundError" by (simp add: script_def)
next
  assume "read_text fs LOGGER_JS = Inl e"
  then show "script fs = Raised e" and "stdout_of (script fs) = []"
    by (simp_all add: script_def)
next
  assume "\<forall>t. fs LOGGER_JS \<noteq> Some (TextFile t)"
  then show "\<exists>e. read_text fs LOGGER_JS = Inl e"
    by (cases "fs LOGGER_JS") (auto split: fnode.splits)
qed

theorem unreadable_file_raises_witness:
  "script Map.empty = Raised FileNotFoundError \<and> stdout_of (script Map.empty) = [] \<and>
   read_text Map.empty LOGGER_JS = Inl FileNotFoundError"
proof -
  have h1: "Map.empty LOGGER_JS = (None :: fnode option)" by simp
  have h2: "read_text Map.empty LOGGER_JS = Inl FileNotFoundError" by simp
  from unreadable_file_raises [of Map.empty FileNotFoundError] h1 h2
  show ?thesis by blast
qed

text \<open>
  C9. When some line contains the start substring, End Index is greater than Start
  Index: the printed block is not empty and begins with the start line, and the start
  line is not the end boundary, whatever its stripped content begins with.
\<close>

theorem block_begins_with_start_line:
  assumes "\<exists>l\<in>set ls. is_start l"
  shows "\<exists>i. start_index ls = Some i \<and> i < end_index ls \<and>
             py_slice ls (start_index ls) (end_index ls) \<noteq> [] \<and>
             hd (py_slice ls (start_index ls) (end_index ls)) = ls ! i \<and>
             snd (scan 0 ls None) \<noteq> Some i"
proof -
  obtain i where i: "i < length ls" "is_start (ls ! i)" "\<forall>k<i. \<not> is_start (ls ! k)"
    using exists_first_start [OF assms] by blast
  then have si: "start_index ls = Some i" by (rule start_index_first)
  from end_index_bounds [OF this]
  have b: "i < end_index ls" "end_index ls \<le> length ls" by simp_all
  then have sl: "py_slice ls (Some i) (end_index ls) = map (\<lambda>k. ls ! k) [i..<end_index ls]"
    by (intro py_slice_Some) simp_all
  have "[i..<end_index ls] = i # [Suc i..<end_index ls]"
    using b(1) by (simp add: upt_conv_Cons)
  with sl have "py_slice ls (Some i) (end_index ls) \<noteq> []"
    and "hd (py_slice ls (Some i) (end_index ls)) = ls ! i" by simp_all
  moreover have "snd (scan 0 ls None) \<noteq> Some i"
  proof
    assume "snd (scan 0 ls None) = Some i"
    then have "end_index ls = i" by (simp add: end_index_def)
    with b(1) show False by simp
  qed
  ultimately show ?thesis using si b(1) by simp
qed

theorem block_begins_with_start_line_witness:
  "is_start (lit ''  static async writeLogs() {'') \<and>
   is_end (lit ''  static async writeLogs() {'') \<and>
   start_index [lit ''  static async writeLogs() {'', lit ''  body''] = Some 0 \<and>
   end_index [lit ''  static async writeLogs() {'', lit ''  body''] = 2 \<and>
   py_slice [lit ''  static async writeLogs() {'', lit ''  body''] (Some 0) 2 =
     [lit ''  static async writeLogs() {'', lit ''  body'']"
proof -
  let ?ls = "[lit ''  static async writeLogs() {'', lit ''  body'']"
  have "\<exists>l\<in>set ?ls. is_start l" using start_line_2 by simp
  from block_begins_with_start_line [OF this]
  have "\<exists>i. start_index ?ls = Some i \<and> i < end_index ?ls" by blast
  moreover have "start_index ?ls = Some 0" and "end_index ?ls = 2"
    by (simp_all add: start_index_def end_index_def start_line_2 not_end_body)
  moreover have "py_slice ?ls (Some 0) 2 = ?ls" by (simp add: py_slice_def)
  ultimately show ?thesis using start_line_2 end_line by simp
qed

text \<open>
  C10. The end test cannot fire before \<open>start\<close> is set. A line whose stripped content
  starts with \<open>static async writeLogs\<close> contains \<open>static async writeLog\<close>; when the scan
  leaves \<open>end\<close> set to \<open>j\<close>, \<open>start\<close> is set to an index before \<open>j\<close>; and a line that passes
  the end test and is the first to contain the start substring becomes Start Index, not
  End Index.
\<close>

theorem end_never_before_start:
  "(is_end l \<longrightarrow> is_start l) \<and>
   (snd (scan 0 ls None) = Some j \<longrightarrow> (\<exists>i<j. start_index ls = Some i)) \<and>
   (k < length ls \<and> is_end (ls ! k) \<and> (\<forall>m<k. \<not> is_start (ls ! m)) \<longrightarrow>
      start_index ls = Some k \<and> snd (scan 0 ls None) \<noteq> Some k)"
proof (intro conjI impI)
  assume "is_end l"
  then show "is_start l" by (rule is_end_imp_is_start)
next
  assume "snd (scan 0 ls None) = Some j"
  then show "\<exists>i<j. start_index ls = Some i" by (rule end_set_after_start)
next
  assume a: "k < length ls \<and> is_end (ls ! k) \<and> (\<forall>m<k. \<not> is_start (ls ! m))"
  then have "is_start (ls ! k)" using is_end_imp_is_start by blast
  with a show "start_index ls = Some k" using start_index_first by blast
next
  assume a: "k < length ls \<and> is_end (ls ! k) \<and> (\<forall>m<k. \<not> is_start (ls ! m))"
  then have "is_start (ls ! k)" using is_end_imp_is_start by blast
  with a have "start_index ls = Some k" using start_index_first by blast
  from end_index_bounds [OF this] have "k < end_index ls" by simp
  then show "snd (scan 0 ls None) \<noteq> Some k" by (auto simp add: end_index_def)
qed

theorem end_never_before_start_witness:
  "is_end (lit ''  static async writeLogs() {'') \<and>
   is_start (lit ''  static async writeLogs() {'') \<and>
   snd (scan 0 [lit ''  static async writeLogs() {'', lit ''  body'',
     lit ''  static async writeLogs() {''] None) = Some 2 \<and>
   start_index [lit ''  static async writeLogs() {'', lit ''  body'',
     lit ''  static async writeLogs() {''] = Some 0 \<and>
   snd (scan 0 [lit ''  static async writeLogs() {'', lit ''  body'',
     lit ''  static async writeLogs() {''] None) \<noteq> Some 0"
proof -
  let ?l = "lit ''  static async writeLogs() {''"
  let ?ls = "[?l, lit ''  body'', ?l]"
  have sc: "snd (scan 0 ?ls None) = Some 2"
    by (simp add: start_line_2 end_line not_end_body not_start_body)
  have h: "0 < length ?ls \<and> is_end (?ls ! 0) \<and> (\<forall>m<0. \<not> is_start (?ls ! m))"
    using end_line by simp
  from end_never_before_start [of ?l ?ls 2 0] end_line sc h
  have "is_start ?l" and "start_index ?ls = Some 0" and "snd (scan 0 ?ls None) \<noteq> Some 0"
    by blast+
  then show ?thesis using end_line sc by simp
qed

end
